theory Spec2Isabelle
  imports Complex_Main "HOL-Library.Multiset"
begin

section \<open>Data model of \<open>src/utils/spotify.ts\<close>\<close>

text \<open>
  \<^verbatim>\<open>export type SessionType = 'calm' | 'building';\<close>
\<close>

datatype SessionType = Calm | Building

section \<open>JavaScript numbers that hold milliseconds\<close>

text \<open>
  \<open>duration_ms\<close>, \<open>targetDurationMs\<close> and \<open>currentDuration\<close> are JavaScript numbers, that
  is, IEEE 754 doubles, and \<^verbatim>\<open>+\<close> and \<^verbatim>\<open>-\<close> round their exact result to the nearest
  double, a tie going to the even significand. The durations of the catalog are integers,
  so the model has the integral doubles: an \<open>int\<close> that a double can hold, and
  \<open>infinity\<close> and \<open>- infinity\<close> for the two infinite values that a sum or a difference can
  overflow to.

  A double has 53 significant bits. \<open>ulp_exponent a\<close> is, for \<open>a \<ge> 0\<close>, the least \<open>e\<close>
  with \<open>a div 2 ^ e < 2 ^ 53\<close>: the doubles around \<open>a\<close> are the multiples of \<open>2 ^ e\<close>.
\<close>

definition infinity :: int where
  "infinity = 2 ^ 1024"

function ulp_exponent :: "int \<Rightarrow> nat" where
  "ulp_exponent a = (if a < 2 ^ 53 then 0 else Suc (ulp_exponent (a div 2)))"
  by pat_completeness auto
termination
  by (relation "measure nat") auto

text \<open>
  Rounding a magnitude: \<open>q\<close> is the significand below, \<open>r\<close> the remainder; the result is
  the multiple of \<open>2 ^ e\<close> below when the remainder is less than half of \<open>2 ^ e\<close>, or is
  half of it and \<open>q\<close> is even, and the multiple above otherwise. A result of \<open>2 ^ 1024\<close> or
  more is beyond the largest double and is infinite.
\<close>

definition round_magnitude :: "int \<Rightarrow> int" where
  "round_magnitude a =
     (let e = ulp_exponent a; q = a div 2 ^ e; r = a mod 2 ^ e;
          m = (if 2 * r < 2 ^ e \<or> (2 * r = 2 ^ e \<and> even q) then q else q + 1)
      in if 971 < e \<or> (e = 971 \<and> m = 2 ^ 53) then infinity else m * 2 ^ e)"

text \<open>The double nearest to an integer.\<close>

definition to_double :: "int \<Rightarrow> int" where
  "to_double x = sgn x * round_magnitude \<bar>x\<bar>"

text \<open>The magnitude is \<open>2 ^ 1024\<close> or more: of the values of the model, the infinite ones.\<close>

definition is_infinite :: "int \<Rightarrow> bool" where
  "is_infinite x \<longleftrightarrow> 971 < ulp_exponent \<bar>x\<bar>"

text \<open>
  The numbers that the caller passes, the \<open>duration_ms\<close> of a song and
  \<open>targetDurationMs\<close>: the finite integral doubles. \<open>ms_val\<close> is the integer that such a
  number is; \<open>ms x\<close> is the number for an integer that is a finite double (and 0 for any
  other integer).
\<close>

typedef millis = "{x :: int. to_double x = x \<and> \<not> is_infinite x}"
  morphisms ms_val Abs_millis
  by (rule exI [of _ 0]) (simp add: to_double_def is_infinite_def)

setup_lifting type_definition_millis

lift_definition ms :: "int \<Rightarrow> millis"
  is "\<lambda>x. if to_double x = x \<and> \<not> is_infinite x then x else 0"
  by (simp add: to_double_def [of 0] is_infinite_def [of 0])

text \<open>
  \<^verbatim>\<open>currentDuration + song.duration_ms\<close>: the running total is a double or an infinite
  value, the duration is finite. An infinite value plus a finite one is that infinite
  value.
\<close>

definition js_add :: "int \<Rightarrow> millis \<Rightarrow> int" where
  "js_add a d = (if is_infinite a then a else to_double (a + ms_val d))"

text \<open>
  \<^verbatim>\<open>targetDurationMs - currentDuration\<close>: a finite value minus an infinite one is the
  opposite infinite value.
\<close>

definition js_sub :: "millis \<Rightarrow> int \<Rightarrow> int" where
  "js_sub t a = (if is_infinite a then - a else to_double (ms_val t - a))"

section \<open>Songs\<close>

text \<open>
  \<^verbatim>\<open>export interface SongAnalysis { id; name; artists; duration_ms; tempo; energy;
     acousticness; instrumentalness; valence; uri }\<close>

  The field \<open>id\<close> is called \<open>id_song\<close> here, since \<open>id\<close> is the identity function of HOL.
  \<open>duration_ms\<close> is the catalog's integral number of milliseconds, a finite integral
  double. The audio features are finite numbers that the code only compares and
  subtracts to read a sign, and are \<open>real\<close>. NaN, infinite fields and durations with a
  fraction are outside the model.
\<close>

record SongAnalysis =
  id_song :: string
  name :: string
  artists :: "string list"
  duration_ms :: millis
  tempo :: real
  energy :: real
  acousticness :: real
  instrumentalness :: real
  valence :: real
  uri :: string

text \<open>
  The elements of a \<^verbatim>\<open>SongAnalysis[]\<close> are references to objects: one object may
  occur at several indices, and two different objects may hold the same field values.
  \<^verbatim>\<open>playlist.includes(s)\<close> compares references. A reference is an address, the objects
  live in a heap that maps every address to the object found there, and an array is a
  list of addresses.
\<close>

type_synonym ref = nat

type_synonym heap = "ref \<Rightarrow> SongAnalysis"

section \<open>classifySong\<close>

text \<open>
  \<^verbatim>\<open>if (analysis.tempo < 100 || analysis.energy < 0.5 ||
      analysis.acousticness > 0.6 || analysis.instrumentalness > 0.5)
    return 'calm'; else return 'building';\<close>
\<close>

definition classifySong :: "SongAnalysis \<Rightarrow> SessionType" where
  "classifySong analysis =
     (if tempo analysis < 100 \<or>
         energy analysis < 0.5 \<or>
         acousticness analysis > 0.6 \<or>
         instrumentalness analysis > 0.5
      then Calm
      else Building)"

section \<open>Array.prototype.sort with a comparator\<close>

text \<open>
  \<^verbatim>\<open>sort(compareFn)\<close> is stable (ECMAScript 2019 and later): an element \<open>a\<close> ends up
  before \<open>b\<close> when \<open>compareFn a b < 0\<close>, and elements that compare equal keep their
  relative order. \<open>place\<close> puts one element in front of the first element that it does
  not have to follow; \<open>array_sort\<close> places the elements from the last to the first.
\<close>

fun place :: "('a \<Rightarrow> 'a \<Rightarrow> real) \<Rightarrow> 'a \<Rightarrow> 'a list \<Rightarrow> 'a list" where
  "place compareFn a [] = [a]"
| "place compareFn a (b # bs) =
     (if compareFn a b \<le> 0 then a # b # bs else b # place compareFn a bs)"

definition array_sort :: "('a \<Rightarrow> 'a \<Rightarrow> real) \<Rightarrow> 'a list \<Rightarrow> 'a list" where
  "array_sort compareFn xs = foldr (place compareFn) xs []"

section \<open>buildPlaylist\<close>

text \<open>
  \<^verbatim>\<open>const filteredSongs = songs.filter(song => classifySong(song) === sessionType);\<close>
\<close>

definition filteredSongs :: "heap \<Rightarrow> ref list \<Rightarrow> SessionType \<Rightarrow> ref list" where
  "filteredSongs h songs sessionType =
     filter (\<lambda>song. classifySong (h song) = sessionType) songs"

text \<open>
  \<^verbatim>\<open>(a, b) => { if (sessionType === 'calm') return a.energy - b.energy;
                else return b.energy - a.energy; }\<close>
\<close>

definition compareEnergy :: "heap \<Rightarrow> SessionType \<Rightarrow> ref \<Rightarrow> ref \<Rightarrow> real" where
  "compareEnergy h sessionType a b =
     (if sessionType = Calm then energy (h a) - energy (h b)
      else energy (h b) - energy (h a))"

text \<open>
  \<^verbatim>\<open>const sortedSongs = [...filteredSongs].sort(...);\<close>
\<close>

definition sortedSongs :: "heap \<Rightarrow> ref list \<Rightarrow> SessionType \<Rightarrow> ref list" where
  "sortedSongs h songs sessionType =
     array_sort (compareEnergy h sessionType) (filteredSongs h songs sessionType)"

text \<open>
  The two local variables that the loop updates. \<open>currentDuration\<close> is a double or an
  infinite value.
\<close>

record pack_state =
  playlist :: "ref list"
  currentDuration :: int

text \<open>
  The \<^verbatim>\<open>for (const song of sortedSongs)\<close> loop. The fourth argument is the part of
  \<open>sortedSongs\<close> that the iteration has not visited yet; the third, \<open>arr\<close>, is the whole array,
  which the \<^verbatim>\<open>find\<close> of the else branch searches from its start. The else branch ends
  with \<^verbatim>\<open>break\<close>, so it does not recurse. Every \<^verbatim>\<open>+\<close> and \<^verbatim>\<open>-\<close> is that of doubles.
\<close>

fun pack :: "heap \<Rightarrow> millis \<Rightarrow> ref list \<Rightarrow> ref list \<Rightarrow> pack_state \<Rightarrow> pack_state" where
  "pack h targetDurationMs arr [] st = st"
| "pack h targetDurationMs arr (song # rest) st =
     (if js_add (currentDuration st) (duration_ms (h song)) \<le> ms_val targetDurationMs
      then pack h targetDurationMs arr rest
             \<lparr>playlist = playlist st @ [song],
              currentDuration = js_add (currentDuration st) (duration_ms (h song))\<rparr>
      else (let remainingDuration = js_sub targetDurationMs (currentDuration st);
                perfectFit = List.find
                  (\<lambda>s. ms_val (duration_ms (h s)) \<le> remainingDuration
                         \<and> s \<notin> set (playlist st)) arr
            in case perfectFit of
                 Some s \<Rightarrow> \<lparr>playlist = playlist st @ [s],
                            currentDuration = js_add (currentDuration st) (duration_ms (h s))\<rparr>
               | None \<Rightarrow> st))"

text \<open>\<^verbatim>\<open>targetDurationMs: number = 38 * 60 * 1000\<close>\<close>

definition defaultTargetDurationMs :: millis where
  "defaultTargetDurationMs = ms (38 * 60 * 1000)"

definition buildPlaylist :: "heap \<Rightarrow> ref list \<Rightarrow> SessionType \<Rightarrow> millis \<Rightarrow> ref list" where
  "buildPlaylist h songs sessionType targetDurationMs =
     playlist (pack h targetDurationMs (sortedSongs h songs sessionType)
                 (sortedSongs h songs sessionType) \<lparr>playlist = [], currentDuration = 0\<rparr>)"



text \<open>The identifiers of an array of songs, in order.\<close>

definition playlist_ids :: "heap \<Rightarrow> ref list \<Rightarrow> string list" where
  "playlist_ids h xs = map (\<lambda>s. id_song (h s)) xs"

section \<open>The two parts of the loop\<close>

text \<open>
  The tracks that the then branch of the loop pushes, from a value of \<open>currentDuration\<close>,
  before the else branch is entered: the greedy prefix.
\<close>

fun greedy_walk :: "heap \<Rightarrow> millis \<Rightarrow> int \<Rightarrow> ref list \<Rightarrow> ref list" where
  "greedy_walk h targetDurationMs running [] = []"
| "greedy_walk h targetDurationMs running (c # cs) =
     (if js_add running (duration_ms (h c)) \<le> ms_val targetDurationMs
      then c # greedy_walk h targetDurationMs (js_add running (duration_ms (h c))) cs
      else [])"

text \<open>The value of \<open>currentDuration\<close> after the loop has pushed the given tracks.\<close>

fun running_total :: "heap \<Rightarrow> int \<Rightarrow> ref list \<Rightarrow> int" where
  "running_total h running [] = running"
| "running_total h running (c # cs) = running_total h (js_add running (duration_ms (h c))) cs"

section \<open>The assembler in the words of the specification\<close>

text \<open>
  Greedy pack: walk the candidates once from a running total; a candidate is taken when
  the running total plus its duration stays within the target, and the walk stops at
  the first candidate that would overflow it. The sum is that of integers.
\<close>

fun exact_walk :: "heap \<Rightarrow> int \<Rightarrow> int \<Rightarrow> ref list \<Rightarrow> ref list" where
  "exact_walk h target running [] = []"
| "exact_walk h target running (c # cs) =
     (if running + ms_val (duration_ms (h c)) \<le> target
      then c # exact_walk h target (running + ms_val (duration_ms (h c))) cs
      else [])"



text \<open>The key by which the comparator of \<open>buildPlaylist\<close> orders the songs.\<close>

definition energy_key :: "heap \<Rightarrow> SessionType \<Rightarrow> ref \<Rightarrow> real" where
  "energy_key h sessionType s = (if sessionType = Calm then energy (h s) else - energy (h s))"

section \<open>buildPlaylist on a store of arrays\<close>

text \<open>
  The arrays that \<open>buildPlaylist\<close> reads and creates, as state: a store holds the
  objects, the arrays by address, and the address that the next new array gets. The
  addresses below \<open>fresh\<close> are the ones in use.
\<close>

type_synonym addr = nat

record js_store =
  objects :: heap
  arrays :: "addr \<Rightarrow> ref list option"
  fresh :: addr

text \<open>A new array (an array literal, the result of \<^verbatim>\<open>filter\<close>, a spread copy).\<close>

definition new_array :: "ref list \<Rightarrow> js_store \<Rightarrow> addr \<times> js_store" where
  "new_array xs st =
     (fresh st, st\<lparr>arrays := (arrays st)(fresh st \<mapsto> xs), fresh := Suc (fresh st)\<rparr>)"

definition read_array :: "addr \<Rightarrow> js_store \<Rightarrow> ref list" where
  "read_array a st = (case arrays st a of Some xs \<Rightarrow> xs | None \<Rightarrow> [])"

text \<open>An update in place (\<^verbatim>\<open>push\<close>, \<^verbatim>\<open>sort\<close>).\<close>

definition write_array :: "addr \<Rightarrow> ref list \<Rightarrow> js_store \<Rightarrow> js_store" where
  "write_array a xs st = st\<lparr>arrays := (arrays st)(a \<mapsto> xs)\<rparr>"

text \<open>
  The loop, with \<^verbatim>\<open>playlist.push\<close> as a write to the array at \<open>playlist_a\<close>, and
  \<^verbatim>\<open>find\<close> and \<^verbatim>\<open>includes\<close> as reads of the arrays at \<open>sortedSongs_a\<close> and
  \<open>playlist_a\<close>. The pair is the store and \<open>currentDuration\<close>.
\<close>

fun pack_store :: "millis \<Rightarrow> addr \<Rightarrow> addr \<Rightarrow> ref list \<Rightarrow> js_store \<times> int \<Rightarrow> js_store \<times> int" where
  "pack_store targetDurationMs sortedSongs_a playlist_a [] (st, cur) = (st, cur)"
| "pack_store targetDurationMs sortedSongs_a playlist_a (song # rest) (st, cur) =
     (if js_add cur (duration_ms (objects st song)) \<le> ms_val targetDurationMs
      then pack_store targetDurationMs sortedSongs_a playlist_a rest
             (write_array playlist_a (read_array playlist_a st @ [song]) st,
              js_add cur (duration_ms (objects st song)))
      else (let remainingDuration = js_sub targetDurationMs cur;
                perfectFit = List.find
                  (\<lambda>s. ms_val (duration_ms (objects st s)) \<le> remainingDuration
                         \<and> s \<notin> set (read_array playlist_a st))
                  (read_array sortedSongs_a st)
            in case perfectFit of
                 Some s \<Rightarrow> (write_array playlist_a (read_array playlist_a st @ [s]) st,
                            js_add cur (duration_ms (objects st s)))
               | None \<Rightarrow> (st, cur)))"

text \<open>
  \<open>buildPlaylist\<close> itself: \<^verbatim>\<open>filter\<close> makes a new array, the spread makes a second
  one, \<^verbatim>\<open>sort\<close> sorts that second array in place, \<^verbatim>\<open>playlist\<close> is a third new
  array, and its address is returned.
\<close>

definition buildPlaylist_store :: "addr \<Rightarrow> SessionType \<Rightarrow> millis \<Rightarrow> js_store \<Rightarrow> addr \<times> js_store" where
  "buildPlaylist_store songs sessionType targetDurationMs st0 =
     (let (filteredSongs_a, st1) =
            new_array (filter (\<lambda>song. classifySong (objects st0 song) = sessionType)
                         (read_array songs st0)) st0;
          (sortedSongs_a, st2) = new_array (read_array filteredSongs_a st1) st1;
          st3 = write_array sortedSongs_a
                  (array_sort (compareEnergy (objects st2) sessionType)
                     (read_array sortedSongs_a st2)) st2;
          (playlist_a, st4) = new_array [] st3;
          (st5, currentDuration) =
            pack_store targetDurationMs sortedSongs_a playlist_a
              (read_array sortedSongs_a st4) (st4, 0)
      in (playlist_a, st5))"

section \<open>Example objects\<close>

text \<open>
  A song with the given identifier, duration and energy and the other features fixed:
  it classifies as calm when its energy is below 0.5 and as building otherwise.
\<close>

definition mk_song :: "string \<Rightarrow> int \<Rightarrow> real \<Rightarrow> SongAnalysis" where
  "mk_song i d e = \<lparr>id_song = i, name = ''n'', artists = [], duration_ms = ms d, tempo = 120,
     energy = e, acousticness = 0.2, instrumentalness = 0.1, valence = 0.5, uri = ''u''\<rparr>"

text \<open>A heap whose address \<open>k\<close> holds the \<open>k\<close>-th object of a list (the last one beyond it).\<close>

fun heap_of :: "SongAnalysis list \<Rightarrow> heap" where
  "heap_of [] k = mk_song '''' 0 0"
| "heap_of [x] k = x"
| "heap_of (x # y # ys) k = (case k of 0 \<Rightarrow> x | Suc j \<Rightarrow> heap_of (y # ys) j)"

text \<open>
  Three calm tracks of 600000 ms, 900000 ms and 900000 ms, with rising energy.
\<close>

definition tracks_three :: heap where
  "tracks_three = heap_of [mk_song ''t1'' 600000 0.1, mk_song ''t2'' 900000 0.2,
     mk_song ''t3'' 900000 0.3]"

text \<open>Three calm tracks where the second overflows a target of 8 and the third fits after it.\<close>

definition tracks_patch :: heap where
  "tracks_patch = heap_of [mk_song ''a'' 5 0.1, mk_song ''b'' 10 0.2, mk_song ''c'' 2 0.3]"

text \<open>Two different objects that carry the same identifier.\<close>

definition tracks_same_id :: heap where
  "tracks_same_id = heap_of [mk_song ''x'' 1 0.1, mk_song ''x'' 1 0.2]"

text \<open>A calm track, then three building tracks, the last of which is the longest.\<close>

definition tracks_mixed :: heap where
  "tracks_mixed = heap_of [mk_song ''c1'' 3 0.1, mk_song ''b1'' 4 0.6, mk_song ''b2'' 5 0.9,
     mk_song ''b3'' 20 0.7]"

text \<open>One calm track whose duration is zero.\<close>

definition tracks_zero :: heap where
  "tracks_zero = heap_of [mk_song ''z'' 0 0.1]"

text \<open>A calm track and, after it in energy order, a calm track whose duration is zero.\<close>

definition tracks_zero_last :: heap where
  "tracks_zero_last = heap_of [mk_song ''a'' 5 0.1, mk_song ''z'' 0 0.2]"



text \<open>A store whose only array, at address 0, holds the three calm tracks.\<close>

definition store_three :: js_store where
  "store_three = \<lparr>objects = tracks_three, arrays = [0 \<mapsto> [2, 0, 1]], fresh = 1\<rparr>"

text \<open>
  A store with the same array at address 0 and the same three objects, and with one more
  object and two more arrays.
\<close>

definition store_other :: js_store where
  "store_other = \<lparr>objects = tracks_three (3 := mk_song ''o'' 1 0.1),
     arrays = [0 \<mapsto> [2, 0, 1], 1 \<mapsto> [3], 2 \<mapsto> []], fresh = 3\<rparr>"

section \<open>Rounding to a double\<close>

declare ulp_exponent.simps [simp del]

lemma ulp_exponent_small: "a < 2 ^ 53 \<Longrightarrow> ulp_exponent a = 0"
  by (subst ulp_exponent.simps) simp

lemma ulp_exponent_large: "2 ^ 53 \<le> a \<Longrightarrow> ulp_exponent a = Suc (ulp_exponent (a div 2))"
  by (subst ulp_exponent.simps) simp

lemma div_ulp_less: "0 \<le> a \<Longrightarrow> a div 2 ^ ulp_exponent a < 2 ^ 53"
proof (induction a rule: ulp_exponent.induct)
  case (1 a)
  show ?case
  proof (cases "a < 2 ^ 53")
    case True
    then show ?thesis by (simp add: ulp_exponent_small)
  next
    case False
    then have "a div 2 div 2 ^ ulp_exponent (a div 2) < 2 ^ 53"
      using 1 by simp
    moreover have "a div 2 ^ Suc (ulp_exponent (a div 2)) = a div 2 div 2 ^ ulp_exponent (a div 2)"
      by (simp add: zdiv_zmult2_eq)
    ultimately show ?thesis
      using False by (simp add: ulp_exponent_large del: power_Suc)
  qed
qed

lemma div_ulp_ge: "2 ^ 53 \<le> a \<Longrightarrow> 2 ^ 52 \<le> a div 2 ^ ulp_exponent a"
proof (induction a rule: ulp_exponent.induct)
  case (1 a)
  have e: "ulp_exponent a = Suc (ulp_exponent (a div 2))"
    using "1.prems" by (rule ulp_exponent_large)
  have d: "a div 2 ^ Suc (ulp_exponent (a div 2)) = a div 2 div 2 ^ ulp_exponent (a div 2)"
    by (simp add: zdiv_zmult2_eq)
  show ?case
  proof (cases "a div 2 < 2 ^ 53")
    case True
    have "2 ^ 52 \<le> a div 2"
      using "1.prems" by simp
    then show ?thesis
      unfolding e d using True by (simp add: ulp_exponent_small)
  next
    case False
    then have "2 ^ 52 \<le> a div 2 div 2 ^ ulp_exponent (a div 2)"
      using 1 by simp
    then show ?thesis
      unfolding e d .
  qed
qed

lemma ulp_exponent_pos: "2 ^ 53 \<le> a \<Longrightarrow> 0 < ulp_exponent a"
  by (simp add: ulp_exponent_large)

lemma ulp_exponent_mult:
  assumes "2 ^ 52 \<le> m" and "m < 2 ^ 53"
  shows "ulp_exponent (m * 2 ^ e) = e"
proof (induction e)
  case 0
  show ?case using assms by (simp add: ulp_exponent_small)
next
  case (Suc e)
  have "(2::int) ^ 53 \<le> m * 2 ^ Suc e"
  proof -
    have "(2::int) ^ 53 = 2 ^ 52 * 2" by simp
    also have "\<dots> \<le> m * 2" using assms by simp
    also have "\<dots> \<le> m * 2 ^ Suc e"
      using assms by (simp add: mult_left_mono)
    finally show ?thesis .
  qed
  then have "ulp_exponent (m * 2 ^ Suc e) = Suc (ulp_exponent (m * 2 ^ Suc e div 2))"
    by (rule ulp_exponent_large)
  also have "m * 2 ^ Suc e div 2 = m * 2 ^ e"
    by simp
  finally show ?case
    using Suc by simp
qed

lemma round_magnitude_small:
  assumes "0 \<le> a" and "a < 2 ^ 53"
  shows "round_magnitude a = a"
  using assms by (simp add: round_magnitude_def ulp_exponent_small)

lemma round_magnitude_scaled:
  assumes "2 ^ 52 \<le> m" and "m < 2 ^ 53"
  shows "round_magnitude (m * 2 ^ e) = (if 971 < e then infinity else m * 2 ^ e)"
proof -
  have e: "ulp_exponent (m * 2 ^ e) = e"
    using assms by (rule ulp_exponent_mult)
  have "m \<noteq> 2 ^ 53"
    using assms(2) by simp
  then show ?thesis
    unfolding round_magnitude_def e by (simp add: Let_def)
qed

lemma round_magnitude_infinity: "round_magnitude infinity = infinity"
proof -
  have "infinity = 2 ^ 52 * 2 ^ 972"
    unfolding infinity_def by (simp flip: power_add)
  moreover have "round_magnitude (2 ^ 52 * 2 ^ 972) = infinity"
    by (subst round_magnitude_scaled) simp_all
  ultimately show ?thesis by simp
qed

lemma round_magnitude_cases:
  assumes "2 ^ 53 \<le> a"
  obtains "round_magnitude a = infinity"
  | m e where "2 ^ 52 \<le> m" "m \<le> 2 ^ 53" "0 < e" "e \<le> 971" "m = 2 ^ 53 \<longrightarrow> e < 971"
      "round_magnitude a = m * 2 ^ e"
proof -
  define e where "e = ulp_exponent a"
  define q where "q = a div 2 ^ e"
  define r where "r = a mod 2 ^ e"
  define m where "m = (if 2 * r < 2 ^ e \<or> (2 * r = 2 ^ e \<and> even q) then q else q + 1)"
  have q: "2 ^ 52 \<le> q" "q < 2 ^ 53"
    using assms div_ulp_ge [of a] div_ulp_less [of a] by (simp_all add: q_def e_def)
  have m: "2 ^ 52 \<le> m" "m \<le> 2 ^ 53"
    using q by (auto simp: m_def)
  have e: "0 < e"
    unfolding e_def using assms by (rule ulp_exponent_pos)
  have r: "round_magnitude a = (if 971 < e \<or> (e = 971 \<and> m = 2 ^ 53) then infinity else m * 2 ^ e)"
    unfolding round_magnitude_def e_def q_def r_def m_def Let_def ..
  show ?thesis
  proof (cases "971 < e \<or> (e = 971 \<and> m = 2 ^ 53)")
    case True
    then have "round_magnitude a = infinity"
      unfolding r by (rule if_P)
    then show ?thesis by (rule that(1))
  next
    case False
    then have "round_magnitude a = m * 2 ^ e"
      unfolding r by (rule if_not_P)
    moreover have "e \<le> 971" and "m = 2 ^ 53 \<longrightarrow> e < 971"
      using False by auto
    ultimately show ?thesis
      using m e by (intro that(2) [of m e])
  qed
qed

lemma infinity_ge: "2 ^ 53 \<le> infinity"
  unfolding infinity_def by (rule power_increasing) simp_all

lemma round_magnitude_large:
  assumes "2 ^ 53 \<le> a"
  shows "2 ^ 53 \<le> round_magnitude a"
  using assms
proof (cases rule: round_magnitude_cases)
  case 1
  then show ?thesis using infinity_ge by simp
next
  case (2 m e)
  have "(2::int) ^ 53 = 2 ^ 52 * 2 ^ 1" by simp
  also have "\<dots> \<le> m * 2 ^ 1"
    using 2(1) by simp
  also have "\<dots> \<le> m * 2 ^ e"
  proof -
    have "(2::int) ^ 1 \<le> 2 ^ e"
      using 2(3) by (intro power_increasing) simp_all
    moreover have "0 \<le> m"
    proof -
      have "(0::int) \<le> 2 ^ 52" by simp
      with 2(1) show ?thesis by linarith
    qed
    ultimately show ?thesis
      by (rule mult_left_mono)
  qed
  finally show ?thesis
    using 2(6) by simp
qed

lemma round_magnitude_idem:
  assumes "0 \<le> a"
  shows "round_magnitude (round_magnitude a) = round_magnitude a"
proof (cases "a < 2 ^ 53")
  case True
  then show ?thesis
    using assms by (simp add: round_magnitude_small)
next
  case False
  then have "2 ^ 53 \<le> a" by simp
  then show ?thesis
  proof (cases rule: round_magnitude_cases)
    case 1
    then show ?thesis by (simp add: round_magnitude_infinity)
  next
    case (2 m e)
    show ?thesis
    proof (cases "m = 2 ^ 53")
      case True
      then have "m * 2 ^ e = 2 ^ 52 * 2 ^ Suc e"
        by simp
      moreover have "round_magnitude (2 ^ 52 * 2 ^ Suc e) = 2 ^ 52 * 2 ^ Suc e"
        using 2(5) True by (subst round_magnitude_scaled) simp_all
      ultimately show ?thesis
        using 2(6) by simp
    next
      case False
      then have "m < 2 ^ 53"
        using 2(2) by simp
      then have "round_magnitude (m * 2 ^ e) = m * 2 ^ e"
        using 2(1,4) by (subst round_magnitude_scaled) simp_all
      then show ?thesis
        using 2(6) by simp
    qed
  qed
qed

lemma round_magnitude_pos:
  assumes "0 < a"
  shows "0 < round_magnitude a"
proof (cases "a < 2 ^ 53")
  case True
  then show ?thesis
    using assms by (simp add: round_magnitude_small)
next
  case False
  then have "2 ^ 53 \<le> round_magnitude a"
    by (intro round_magnitude_large) simp
  moreover have "(0::int) < 2 ^ 53" by simp
  ultimately show ?thesis by linarith
qed





lemma to_double_idem: "to_double (to_double x) = to_double x"
proof (cases "x = 0")
  case True
  then show ?thesis by (simp add: to_double_def)
next
  case False
  then have "0 < \<bar>x\<bar>"
    by simp
  then have pos: "0 < round_magnitude \<bar>x\<bar>"
    by (rule round_magnitude_pos)
  then have "\<bar>to_double x\<bar> = round_magnitude \<bar>x\<bar>"
    and "sgn (to_double x) = sgn x"
    using False by (simp_all add: to_double_def abs_mult sgn_mult)
  then show ?thesis
    by (simp add: to_double_def [of "to_double x"] round_magnitude_idem)
      (simp add: to_double_def)
qed

lemma not_infinite_small: "\<bar>a\<bar> < 2 ^ 53 \<Longrightarrow> \<not> is_infinite a"
  by (simp add: is_infinite_def ulp_exponent_small)

lemma ms_val_double: "to_double (ms_val d) = ms_val d"
  using ms_val [of d] by simp

lemma ms_val_finite: "\<not> is_infinite (ms_val d)"
  using ms_val [of d] by simp


lemma js_add_zero_left: "js_add 0 d = ms_val d"
  by (simp add: js_add_def not_infinite_small ms_val_double)

lemma js_sub_zero: "js_sub t 0 = ms_val t"
  by (simp add: js_sub_def not_infinite_small ms_val_double)

lemma js_add_zero_right:
  assumes "to_double a = a" and "ms_val z = 0"
  shows "js_add a z = a"
  using assms by (simp add: js_add_def)

lemma js_add_double:
  assumes "to_double a = a"
  shows "to_double (js_add a d) = js_add a d"
  using assms by (simp add: js_add_def to_double_idem)


section \<open>Library facts about lists\<close>

lemma find_Some_holds: "List.find P xs = Some x \<Longrightarrow> P x \<and> x \<in> set xs"
  by (induction xs) (auto split: if_splits)








section \<open>The sort orders a permutation of the filtered songs by energy\<close>

lemma place_insort_key:
  assumes "\<And>a b. compareFn a b \<le> 0 \<longleftrightarrow> k a \<le> k b"
  shows "place compareFn a bs = insort_key k a bs"
  by (induction bs) (simp_all add: assms)

lemma array_sort_sort_key:
  assumes "\<And>a b. compareFn a b \<le> 0 \<longleftrightarrow> k a \<le> k b"
  shows "array_sort compareFn xs = sort_key k xs"
proof -
  have "place compareFn = insort_key k"
    using place_insort_key [of compareFn k, OF assms] by (intro ext)
  then show ?thesis
    by (simp add: array_sort_def sort_key_def)
qed

lemma sortedSongs_sort_key:
  "sortedSongs h songs m = sort_key (energy_key h m) (filteredSongs h songs m)"
  unfolding sortedSongs_def
  by (rule array_sort_sort_key) (simp add: compareEnergy_def energy_key_def)

lemma mset_sortedSongs: "mset (sortedSongs h songs m) = mset (filteredSongs h songs m)"
  by (simp add: sortedSongs_sort_key)

lemma set_sortedSongs:
  "set (sortedSongs h songs m) = {s \<in> set songs. classifySong (h s) = m}"
  by (simp add: sortedSongs_sort_key filteredSongs_def)

lemma sortedSongs_Calm:
  "sorted_wrt (\<lambda>a b. energy (h a) \<le> energy (h b)) (sortedSongs h songs Calm)"
proof -
  have "sorted (map (energy_key h Calm) (sortedSongs h songs Calm))"
    by (simp add: sortedSongs_sort_key)
  then show ?thesis
    by (simp add: sorted_map energy_key_def)
qed

lemma sortedSongs_Building:
  "sorted_wrt (\<lambda>a b. energy (h b) \<le> energy (h a)) (sortedSongs h songs Building)"
proof -
  have "sorted (map (energy_key h Building) (sortedSongs h songs Building))"
    by (simp add: sortedSongs_sort_key)
  then show ?thesis
    by (simp add: sorted_map energy_key_def)
qed

section \<open>The greedy prefix\<close>

lemma greedy_walk_take:
  "greedy_walk h t r xs = take (length (greedy_walk h t r xs)) xs"
  by (induction xs arbitrary: r) auto

lemma set_greedy_walk: "set (greedy_walk h t r xs) \<subseteq> set xs"
  by (metis greedy_walk_take set_take_subset)

lemma greedy_walk_append:
  "greedy_walk h t r xs = xs \<Longrightarrow>
     greedy_walk h t r (xs @ ys) = xs @ greedy_walk h t (running_total h r xs) ys"
  by (induction xs arbitrary: r) (auto split: if_splits)

lemma running_total_le:
  "r \<le> ms_val t \<Longrightarrow> greedy_walk h t r xs = xs \<Longrightarrow> running_total h r xs \<le> ms_val t"
  by (induction xs arbitrary: r) (auto split: if_splits)

lemma running_total_double:
  "to_double r = r \<Longrightarrow> to_double (running_total h r xs) = running_total h r xs"
  by (induction xs arbitrary: r) (simp_all add: js_add_double)

section \<open>The walk of the specification\<close>

lemma exact_walk_take:
  "exact_walk h t r xs = take (length (exact_walk h t r xs)) xs"
  by (induction xs arbitrary: r) auto

lemma set_exact_walk: "set (exact_walk h t r xs) \<subseteq> set xs"
  by (metis exact_walk_take set_take_subset)




section \<open>Where the sums of the loop are exact\<close>


section \<open>The loop computes the greedy prefix and one patch\<close>

lemma pack_playlist:
  "playlist (pack h t arr rest st) =
     (let greedy = greedy_walk h t (currentDuration st) rest;
          chosen = playlist st @ greedy;
          running = running_total h (currentDuration st) greedy
      in if greedy = rest then chosen
         else (case List.find (\<lambda>s. ms_val (duration_ms (h s)) \<le> js_sub t running
                                    \<and> s \<notin> set chosen) arr of
                 Some s \<Rightarrow> chosen @ [s]
               | None \<Rightarrow> chosen))"
proof (induction rest arbitrary: st)
  case Nil
  show ?case by simp
next
  case (Cons c cs)
  show ?case
  proof (cases "js_add (currentDuration st) (duration_ms (h c)) \<le> ms_val t")
    case True
    let ?st' = "\<lparr>playlist = playlist st @ [c],
                 currentDuration = js_add (currentDuration st) (duration_ms (h c))\<rparr>"
    have "playlist (pack h t arr (c # cs) st) = playlist (pack h t arr cs ?st')"
      using True by simp
    also note Cons.IH [of ?st']
    finally show ?thesis
      using True by (simp add: Let_def)
  next
    case False
    then show ?thesis
      by (simp add: Let_def split: option.splits)
  qed
qed

lemma buildPlaylist_loop:
  "buildPlaylist h songs m t =
     (let greedy = greedy_walk h t 0 (sortedSongs h songs m)
      in if greedy = sortedSongs h songs m then greedy
         else (case List.find
                      (\<lambda>s. ms_val (duration_ms (h s)) \<le> js_sub t (running_total h 0 greedy)
                            \<and> s \<notin> set greedy) (sortedSongs h songs m) of
                 Some s \<Rightarrow> greedy @ [s]
               | None \<Rightarrow> greedy))"
  unfolding buildPlaylist_def by (simp add: pack_playlist Let_def)

lemma buildPlaylist_shape:
  "buildPlaylist h songs m t = greedy_walk h t 0 (sortedSongs h songs m)
   \<or> (\<exists>s \<in> set (sortedSongs h songs m).
         s \<notin> set (greedy_walk h t 0 (sortedSongs h songs m))
         \<and> buildPlaylist h songs m t = greedy_walk h t 0 (sortedSongs h songs m) @ [s])"
  unfolding buildPlaylist_loop
  by (auto simp: Let_def split: option.splits dest: find_Some_holds)

lemma set_buildPlaylist: "set (buildPlaylist h songs m t) \<subseteq> set (sortedSongs h songs m)"
  using buildPlaylist_shape [of h songs m t] set_greedy_walk [of h t 0 "sortedSongs h songs m"]
  by auto



section \<open>The classifier\<close>

text \<open>
  C2: \<open>classifySong\<close> returns calm exactly when tempo < 100 or energy < 0.5 or
  acousticness > 0.6 or instrumentalness > 0.5, and building otherwise. So every track
  with tempo < 100 is calm whatever its other fields are, and every track with
  tempo >= 100, energy >= 0.5, acousticness <= 0.6 and instrumentalness <= 0.5 is
  building.
\<close>

theorem classifySong_thresholds:
  "(classifySong t = Calm \<longleftrightarrow>
      (tempo t < 100 \<or> energy t < 0.5 \<or> acousticness t > 0.6 \<or> instrumentalness t > 0.5))
   \<and> (classifySong t = Building \<longleftrightarrow>
      \<not> (tempo t < 100 \<or> energy t < 0.5 \<or> acousticness t > 0.6 \<or> instrumentalness t > 0.5))
   \<and> (tempo t < 100 \<longrightarrow> classifySong t = Calm)
   \<and> (tempo t \<ge> 100 \<and> energy t \<ge> 0.5 \<and> acousticness t \<le> 0.6 \<and> instrumentalness t \<le> 0.5
        \<longrightarrow> classifySong t = Building)"
  by (auto simp: classifySong_def)

theorem classifySong_thresholds_witness:
  "tempo (mk_song ''a'' 1 0.9 \<lparr>tempo := 80, acousticness := 0.1, instrumentalness := 0\<rparr>) < 100
   \<and> classifySong (mk_song ''a'' 1 0.9 \<lparr>tempo := 80, acousticness := 0.1, instrumentalness := 0\<rparr>) = Calm
   \<and> tempo (mk_song ''b'' 1 0.8) \<ge> 100 \<and> energy (mk_song ''b'' 1 0.8) \<ge> 0.5
   \<and> acousticness (mk_song ''b'' 1 0.8) \<le> 0.6 \<and> instrumentalness (mk_song ''b'' 1 0.8) \<le> 0.5
   \<and> classifySong (mk_song ''b'' 1 0.8) = Building"
  using classifySong_thresholds
      [of "mk_song ''a'' 1 0.9 \<lparr>tempo := 80, acousticness := 0.1, instrumentalness := 0\<rparr>"]
    classifySong_thresholds [of "mk_song ''b'' 1 0.8"]
  by (simp add: mk_song_def)

section \<open>The assembler\<close>







text \<open>
  C5: every track of the array that \<open>buildPlaylist\<close> returns classifies as the target
  mood; a track of the other mood is never selected, not by the search of the else
  branch either.
\<close>

theorem buildPlaylist_mood:
  "\<forall>s \<in> set (buildPlaylist h songs m t). classifySong (h s) = m"
  using set_buildPlaylist [of h songs m t] by (auto simp: set_sortedSongs)

theorem buildPlaylist_mood_witness:
  "buildPlaylist tracks_mixed [0, 1, 2, 3] Building (ms 10) = [2, 1]
   \<and> classifySong (tracks_mixed 2) = Building \<and> classifySong (tracks_mixed 1) = Building"
proof -
  have run: "buildPlaylist tracks_mixed [0, 1, 2, 3] Building (ms 10) = [2, 1]"
    by code_simp
  have "\<forall>s \<in> set [2, 1]. classifySong (tracks_mixed s) = Building"
    using buildPlaylist_mood
      [where h = tracks_mixed and songs = "[0, 1, 2, 3]" and m = Building and t = "ms 10"]
    unfolding run .
  then have "classifySong (tracks_mixed 2) = Building"
    and "classifySong (tracks_mixed 1) = Building"
    by simp_all
  with run show ?thesis
    by blast
qed

text \<open>
  C6: the array that \<open>buildPlaylist\<close> returns is a prefix of the filtered list sorted by
  energy (ascending for calm, descending for building), followed by the track that the
  search of the else branch selected, when it selected one; that track comes last and
  the result is not sorted again.
\<close>

theorem buildPlaylist_energy_order:
  "mset (sortedSongs h songs m) = mset (filteredSongs h songs m)
   \<and> (m = Calm \<longrightarrow>
        sorted_wrt (\<lambda>a b. energy (h a) \<le> energy (h b)) (sortedSongs h songs m))
   \<and> (m = Building \<longrightarrow>
        sorted_wrt (\<lambda>a b. energy (h b) \<le> energy (h a)) (sortedSongs h songs m))
   \<and> (\<exists>n. buildPlaylist h songs m t = take n (sortedSongs h songs m)
          \<or> (\<exists>s \<in> set (sortedSongs h songs m).
                buildPlaylist h songs m t = take n (sortedSongs h songs m) @ [s]))"
proof -
  let ?S = "sortedSongs h songs m"
  let ?g = "greedy_walk h t 0 ?S"
  have "mset ?S = mset (filteredSongs h songs m)"
    by (rule mset_sortedSongs)
  moreover have "m = Calm \<longrightarrow> sorted_wrt (\<lambda>a b. energy (h a) \<le> energy (h b)) ?S"
    using sortedSongs_Calm [of h songs] by simp
  moreover have "m = Building \<longrightarrow> sorted_wrt (\<lambda>a b. energy (h b) \<le> energy (h a)) ?S"
    using sortedSongs_Building [of h songs] by simp
  moreover have "buildPlaylist h songs m t = take (length ?g) ?S
      \<or> (\<exists>s \<in> set ?S. buildPlaylist h songs m t = take (length ?g) ?S @ [s])"
    using buildPlaylist_shape [of h songs m t] greedy_walk_take [of h t 0 ?S]
    by metis
  ultimately show ?thesis by blast
qed

theorem buildPlaylist_energy_order_witness:
  "filteredSongs tracks_mixed [0, 1, 2, 3] Building = [1, 2, 3]
   \<and> sortedSongs tracks_mixed [0, 1, 2, 3] Building = [2, 3, 1]
   \<and> energy (tracks_mixed 1) \<le> energy (tracks_mixed 3)
   \<and> energy (tracks_mixed 3) \<le> energy (tracks_mixed 2)
   \<and> buildPlaylist tracks_mixed [0, 1, 2, 3] Building (ms 10) = take 1 [2, 3, 1] @ [1]"
proof -
  have F: "filteredSongs tracks_mixed [0, 1, 2, 3] Building = [1, 2, 3]"
    by code_simp
  have S: "sortedSongs tracks_mixed [0, 1, 2, 3] Building = [2, 3, 1]"
    by code_simp
  have run: "buildPlaylist tracks_mixed [0, 1, 2, 3] Building (ms 10) = take 1 [2, 3, 1] @ [1]"
    by code_simp
  have "sorted_wrt (\<lambda>a b. energy (tracks_mixed b) \<le> energy (tracks_mixed a)) [2, 3, 1]"
    using buildPlaylist_energy_order
      [where h = tracks_mixed and songs = "[0, 1, 2, 3]" and m = Building and t = "ms 10"]
    unfolding S by blast
  then have "energy (tracks_mixed 1) \<le> energy (tracks_mixed 3)"
    and "energy (tracks_mixed 3) \<le> energy (tracks_mixed 2)"
    by simp_all
  with F S run show ?thesis
    by blast
qed

text \<open>
  C7: when every track that classifies as the target mood has a \<open>duration_ms\<close> strictly
  greater than \<open>targetDurationMs\<close> (the empty input included), \<open>buildPlaylist\<close> returns the
  empty array.
\<close>

theorem buildPlaylist_all_too_long:
  assumes "\<forall>s \<in> set songs. classifySong (h s) = m \<longrightarrow> ms_val t < ms_val (duration_ms (h s))"
  shows "buildPlaylist h songs m t = []"
proof -
  let ?S = "sortedSongs h songs m"
  have long: "\<forall>s \<in> set ?S. ms_val t < ms_val (duration_ms (h s))"
    using assms by (simp add: set_sortedSongs)
  have g: "greedy_walk h t 0 ?S = []"
    using long by (cases ?S) (auto simp: js_add_zero_left)
  have "List.find (\<lambda>s. ms_val (duration_ms (h s)) \<le> js_sub t (running_total h 0 [])
                        \<and> s \<notin> set []) ?S = None"
    using long by (auto simp: find_None_iff js_sub_zero)
  then show ?thesis
    unfolding buildPlaylist_loop by (simp add: g Let_def)
qed

theorem buildPlaylist_all_too_long_witness:
  "classifySong (tracks_three 0) = Calm
   \<and> ms_val (ms 500000) < ms_val (duration_ms (tracks_three 0))
   \<and> ms_val (ms 500000) < ms_val (duration_ms (tracks_three 1))
   \<and> ms_val (ms 500000) < ms_val (duration_ms (tracks_three 2))
   \<and> buildPlaylist tracks_three [0, 1, 2] Calm (ms 500000) = []
   \<and> buildPlaylist tracks_three [] Calm (ms 500000) = []"
proof -
  have hyp: "\<forall>s \<in> set [0, 1, 2]. classifySong (tracks_three s) = Calm
      \<longrightarrow> ms_val (ms 500000) < ms_val (duration_ms (tracks_three s))"
    by code_simp
  have c: "classifySong (tracks_three 0) = Calm"
    by code_simp
  have d: "ms_val (ms 500000) < ms_val (duration_ms (tracks_three 0))"
    "ms_val (ms 500000) < ms_val (duration_ms (tracks_three 1))"
    "ms_val (ms 500000) < ms_val (duration_ms (tracks_three 2))"
    by code_simp+
  have "buildPlaylist tracks_three [0, 1, 2] Calm (ms 500000) = []"
    by (rule buildPlaylist_all_too_long [OF hyp])
  moreover have "buildPlaylist tracks_three [] Calm (ms 500000) = []"
    by (rule buildPlaylist_all_too_long) simp
  ultimately show ?thesis
    using c d by blast
qed

text \<open>
  C10: when at least one track classifies as the target mood and has a \<open>duration_ms\<close> of
  at most \<open>targetDurationMs\<close>, \<open>buildPlaylist\<close> returns a non-empty array.
\<close>

theorem buildPlaylist_nonempty:
  assumes "\<exists>s \<in> set songs. classifySong (h s) = m \<and> ms_val (duration_ms (h s)) \<le> ms_val t"
  shows "buildPlaylist h songs m t \<noteq> []"
proof -
  let ?S = "sortedSongs h songs m"
  from assms obtain s where s: "s \<in> set ?S" "ms_val (duration_ms (h s)) \<le> ms_val t"
    by (auto simp: set_sortedSongs)
  show ?thesis
  proof (cases "greedy_walk h t 0 ?S = []")
    case True
    have "?S \<noteq> []" using s by auto
    moreover have "List.find (\<lambda>s. ms_val (duration_ms (h s)) \<le> js_sub t (running_total h 0 [])
                                  \<and> s \<notin> set []) ?S \<noteq> None"
      using s by (auto simp: find_None_iff js_sub_zero)
    ultimately show ?thesis
      unfolding buildPlaylist_loop
      using True by (auto simp: Let_def split: option.splits)
  next
    case False
    then show ?thesis
      using buildPlaylist_shape [of h songs m t] by auto
  qed
qed

theorem buildPlaylist_nonempty_witness:
  "classifySong (tracks_mixed 1) = Building
   \<and> ms_val (duration_ms (tracks_mixed 1)) \<le> ms_val (ms 4)
   \<and> buildPlaylist tracks_mixed [0, 1, 2, 3] Building (ms 4) = [1]
   \<and> buildPlaylist tracks_mixed [0, 1, 2, 3] Building (ms 4) \<noteq> []"
proof -
  have c: "classifySong (tracks_mixed 1) = Building"
    and d: "ms_val (duration_ms (tracks_mixed 1)) \<le> ms_val (ms 4)"
    by code_simp+
  have run: "buildPlaylist tracks_mixed [0, 1, 2, 3] Building (ms 4) = [1]"
    by code_simp
  have hyp: "\<exists>s \<in> set [0, 1, 2, 3]. classifySong (tracks_mixed s) = Building
      \<and> ms_val (duration_ms (tracks_mixed s)) \<le> ms_val (ms 4)"
    by code_simp
  have "buildPlaylist tracks_mixed [0, 1, 2, 3] Building (ms 4) \<noteq> []"
    by (rule buildPlaylist_nonempty [OF hyp])
  with c d run show ?thesis
    by blast
qed

text \<open>
  C4, as stated: for every input array, also one that holds different objects with the
  same \<open>id\<close>, no two entries of the array that \<open>buildPlaylist\<close> returns have the same
  \<open>id\<close>. It fails: the greedy walk pushes every candidate that fits and compares no
  identifiers, so two objects with the identifier \<open>x\<close> are both selected.
\<close>

theorem buildPlaylist_ids_counterexample:
  "\<not> distinct (playlist_ids tracks_same_id (buildPlaylist tracks_same_id [0, 1] Calm (ms 10)))"
proof -
  have "playlist_ids tracks_same_id (buildPlaylist tracks_same_id [0, 1] Calm (ms 10))
          = [''x'', ''x'']"
    by code_simp
  then show ?thesis
    by simp
qed

text \<open>
  C4, amended: for every input array in which the tracks that classify as the target
  mood have pairwise different \<open>id\<close>s, and every target duration, no two entries of the
  array that \<open>buildPlaylist\<close> returns have the same \<open>id\<close>.
\<close>

theorem buildPlaylist_distinct_ids:
  assumes "distinct (playlist_ids h (filteredSongs h songs m))"
  shows "distinct (playlist_ids h (buildPlaylist h songs m t))"
proof -
  let ?S = "sortedSongs h songs m" and ?f = "\<lambda>s. id_song (h s)"
  let ?g = "greedy_walk h t 0 ?S"
  have "distinct (map ?f (filteredSongs h songs m))"
    using assms by (simp add: playlist_ids_def)
  moreover have "mset (map ?f ?S) = mset (map ?f (filteredSongs h songs m))"
    by (simp add: mset_sortedSongs)
  ultimately have dS: "distinct (map ?f ?S)"
    by (metis mset_eq_imp_distinct_iff)
  then have inj: "inj_on ?f (set ?S)"
    by (simp add: distinct_map)
  have "?g = take (length ?g) ?S"
    by (rule greedy_walk_take)
  then have dg: "distinct (map ?f ?g)"
    using dS by (metis distinct_take take_map)
  have sub: "set ?g \<subseteq> set ?S"
    by (rule set_greedy_walk)
  from buildPlaylist_shape [of h songs m t] show ?thesis
  proof
    assume "buildPlaylist h songs m t = ?g"
    then show ?thesis
      using dg by (simp add: playlist_ids_def)
  next
    assume "\<exists>s \<in> set ?S. s \<notin> set ?g
         \<and> buildPlaylist h songs m t = ?g @ [s]"
    then obtain s where s: "s \<in> set ?S" "s \<notin> set ?g" "buildPlaylist h songs m t = ?g @ [s]"
      by blast
    have "?f s \<notin> ?f ` set ?g"
      using inj s(1,2) sub by (auto dest: inj_onD)
    then show ?thesis
      using dg s(3) by (simp add: playlist_ids_def)
  qed
qed

theorem buildPlaylist_distinct_ids_witness:
  "distinct (playlist_ids tracks_patch (filteredSongs tracks_patch [0, 1, 2] Calm))
   \<and> playlist_ids tracks_patch (buildPlaylist tracks_patch [0, 1, 2] Calm (ms 8)) = [''a'', ''c'']
   \<and> distinct (playlist_ids tracks_patch (buildPlaylist tracks_patch [0, 1, 2] Calm (ms 8)))"
proof -
  have hyp: "distinct (playlist_ids tracks_patch (filteredSongs tracks_patch [0, 1, 2] Calm))"
    by code_simp
  have ids: "playlist_ids tracks_patch (buildPlaylist tracks_patch [0, 1, 2] Calm (ms 8))
               = [''a'', ''c'']"
    by code_simp
  have "distinct (playlist_ids tracks_patch (buildPlaylist tracks_patch [0, 1, 2] Calm (ms 8)))"
    by (rule buildPlaylist_distinct_ids [OF hyp])
  with hyp ids show ?thesis
    by blast
qed

text \<open>
  C8, as stated: a track whose \<open>duration_ms\<close> is 0 never appears in the array that
  \<open>buildPlaylist\<close> returns, even when it classifies as the target mood. It fails: the
  loop tests only that the running total plus the duration stays within the target, and
  a calm track of duration 0 is returned for the default target.
\<close>

theorem buildPlaylist_zero_duration_counterexample:
  "ms_val (duration_ms (tracks_zero 0)) = 0 \<and> classifySong (tracks_zero 0) = Calm
   \<and> 0 \<in> set (buildPlaylist tracks_zero [0] Calm defaultTargetDurationMs)"
proof -
  have "ms_val (duration_ms (tracks_zero 0)) = 0" and "classifySong (tracks_zero 0) = Calm"
    by code_simp+
  moreover have "buildPlaylist tracks_zero [0] Calm defaultTargetDurationMs = [0]"
    by code_simp
  ultimately show ?thesis
    by simp
qed

text \<open>
  C8, amended: the assembler does not require \<open>duration_ms\<close> to be greater than 0. For a
  non-negative target, a track of the sorted filtered list whose \<open>duration_ms\<close> is 0
  appears in the array that \<open>buildPlaylist\<close> returns whenever the greedy walk reaches it,
  that is, whenever the loop pushes every track before it in the sorted order.
\<close>

theorem buildPlaylist_zero_duration_selected:
  assumes "0 \<le> ms_val t"
    and "ms_val (duration_ms (h z)) = 0"
    and "sortedSongs h songs m = before @ z # after"
    and "greedy_walk h t 0 before = before"
  shows "z \<in> set (buildPlaylist h songs m t)"
proof -
  let ?r = "running_total h 0 before"
  have "?r \<le> ms_val t"
    using assms(1,4) by (rule running_total_le)
  moreover have "to_double ?r = ?r"
    by (rule running_total_double) (simp add: to_double_def)
  then have "js_add ?r (duration_ms (h z)) = ?r"
    using assms(2) by (rule js_add_zero_right)
  ultimately have "greedy_walk h t ?r (z # after) \<noteq> [] \<and> hd (greedy_walk h t ?r (z # after)) = z"
    by simp
  moreover have "greedy_walk h t 0 (before @ z # after)
          = before @ greedy_walk h t ?r (z # after)"
    using assms(4) by (rule greedy_walk_append)
  ultimately have "z \<in> set (greedy_walk h t 0 (sortedSongs h songs m))"
    unfolding assms(3) by (cases "greedy_walk h t ?r (z # after)") auto
  then show ?thesis
    using buildPlaylist_shape [of h songs m t] by auto
qed

theorem buildPlaylist_zero_duration_selected_witness:
  "(0::int) \<le> ms_val (ms 5) \<and> ms_val (duration_ms (tracks_zero_last 1)) = 0
   \<and> sortedSongs tracks_zero_last [1, 0] Calm = [0] @ 1 # []
   \<and> greedy_walk tracks_zero_last (ms 5) 0 [0] = [0]
   \<and> 1 \<in> set (buildPlaylist tracks_zero_last [1, 0] Calm (ms 5))"
proof -
  have nonneg: "(0::int) \<le> ms_val (ms 5)"
    by code_simp
  have zero: "ms_val (duration_ms (tracks_zero_last 1)) = 0"
    by code_simp
  have S: "sortedSongs tracks_zero_last [1, 0] Calm = [0] @ 1 # []"
    by code_simp
  have g: "greedy_walk tracks_zero_last (ms 5) 0 [0] = [0]"
    by code_simp
  have "1 \<in> set (buildPlaylist tracks_zero_last [1, 0] Calm (ms 5))"
    by (rule buildPlaylist_zero_duration_selected [OF nonneg zero S g])
  with nonneg zero S g show ?thesis
    by blast
qed

section \<open>The store: what buildPlaylist writes and reads\<close>

lemma pack_store_pack:
  assumes "arrays st playlist_a = Some pl" and "playlist_a \<noteq> sortedSongs_a"
  shows "pack_store t sortedSongs_a playlist_a rest (st, cur) =
           (write_array playlist_a
              (playlist (pack (objects st) t (read_array sortedSongs_a st) rest
                           \<lparr>playlist = pl, currentDuration = cur\<rparr>)) st,
            currentDuration (pack (objects st) t (read_array sortedSongs_a st) rest
                           \<lparr>playlist = pl, currentDuration = cur\<rparr>))"
  using assms
proof (induction rest arbitrary: st pl cur)
  case Nil
  then show ?case
    by (simp add: write_array_def fun_upd_idem)
next
  case (Cons song rest)
  show ?case
  proof (cases "js_add cur (duration_ms (objects st song)) \<le> ms_val t")
    case True
    let ?st' = "write_array playlist_a (read_array playlist_a st @ [song]) st"
    have a: "arrays ?st' playlist_a = Some (pl @ [song])"
      using Cons.prems by (simp add: write_array_def read_array_def)
    have o: "objects ?st' = objects st"
      by (simp add: write_array_def)
    have r: "read_array sortedSongs_a ?st' = read_array sortedSongs_a st"
      using Cons.prems(2) by (simp add: write_array_def read_array_def)
    have w: "\<And>xs. write_array playlist_a xs ?st' = write_array playlist_a xs st"
      by (simp add: write_array_def)
    show ?thesis
      using True Cons.IH [OF a Cons.prems(2), of "js_add cur (duration_ms (objects st song))"]
      by (simp add: o r w)
  next
    case False
    have pl: "read_array playlist_a st = pl"
      using Cons.prems(1) by (simp add: read_array_def)
    show ?thesis
      using False Cons.prems(1)
      by (simp add: Let_def pl write_array_def fun_upd_idem split: option.splits)
  qed
qed

lemma buildPlaylist_store_result:
  assumes "arrays st songs = Some xs"
  shows "buildPlaylist_store songs m t st =
           (fresh st + 2,
            st\<lparr>arrays := (arrays st)
                   (fresh st \<mapsto> filteredSongs (objects st) xs m,
                    fresh st + 1 \<mapsto> sortedSongs (objects st) xs m,
                    fresh st + 2 \<mapsto> buildPlaylist (objects st) xs m t),
               fresh := fresh st + 3\<rparr>)"
proof -
  let ?F = "filteredSongs (objects st) xs m" and ?S = "sortedSongs (objects st) xs m"
  let ?st4 = "st\<lparr>arrays := (arrays st)
                   (fresh st \<mapsto> ?F, Suc (fresh st) \<mapsto> ?S, Suc (Suc (fresh st)) \<mapsto> []),
               fresh := Suc (Suc (Suc (fresh st)))\<rparr>"
  have xs: "read_array songs st = xs"
    using assms by (simp add: read_array_def)
  have a: "arrays ?st4 (Suc (Suc (fresh st))) = Some []"
    by simp
  have ne: "Suc (Suc (fresh st)) \<noteq> Suc (fresh st)"
    by simp
  have rd: "read_array (Suc (fresh st)) ?st4 = ?S"
    by (simp add: read_array_def)
  have "buildPlaylist_store songs m t st =
          (Suc (Suc (fresh st)),
           fst (pack_store t (Suc (fresh st)) (Suc (Suc (fresh st))) ?S (?st4, 0)))"
    by (simp add: buildPlaylist_store_def new_array_def write_array_def read_array_def
        Let_def assms filteredSongs_def sortedSongs_def case_prod_beta)
  also have "fst (pack_store t (Suc (fresh st)) (Suc (Suc (fresh st))) ?S (?st4, 0))
           = write_array (Suc (Suc (fresh st))) (buildPlaylist (objects st) xs m t) ?st4"
    unfolding pack_store_pack [OF a ne] rd
    by (simp add: buildPlaylist_def)
  finally show ?thesis
    by (simp add: write_array_def eval_nat_numeral)
qed

lemma set_place: "set (place c a bs) = insert a (set bs)"
  by (induction bs) auto

lemma set_array_sort: "set (array_sort c xs) = set xs"
  by (induction xs) (simp_all add: array_sort_def set_place)

lemma place_agree:
  "\<forall>b \<in> set bs. c' a b = c a b \<Longrightarrow> place c' a bs = place c a bs"
  by (induction bs) simp_all

lemma array_sort_agree:
  "\<forall>a \<in> set xs. \<forall>b \<in> set xs. c' a b = c a b \<Longrightarrow> array_sort c' xs = array_sort c xs"
proof (induction xs)
  case Nil
  show ?case by (simp add: array_sort_def)
next
  case (Cons x xs)
  have "array_sort c' xs = array_sort c xs"
    using Cons by simp
  moreover have "place c' x (array_sort c xs) = place c x (array_sort c xs)"
    using Cons.prems by (intro place_agree) (simp add: set_array_sort)
  ultimately show ?case
    by (simp add: array_sort_def)
qed

lemma filteredSongs_agree:
  "\<forall>s \<in> set xs. h' s = h s \<Longrightarrow> filteredSongs h' xs m = filteredSongs h xs m"
  unfolding filteredSongs_def by (rule filter_cong) simp_all

lemma sortedSongs_agree:
  assumes "\<forall>s \<in> set xs. h' s = h s"
  shows "sortedSongs h' xs m = sortedSongs h xs m"
proof -
  have "\<forall>a \<in> set (filteredSongs h xs m). \<forall>b \<in> set (filteredSongs h xs m).
          compareEnergy h' m a b = compareEnergy h m a b"
    using assms by (simp add: filteredSongs_def compareEnergy_def)
  then show ?thesis
    unfolding sortedSongs_def filteredSongs_agree [OF assms]
    by (rule array_sort_agree)
qed

lemma greedy_walk_agree:
  "\<forall>s \<in> set xs. h' s = h s \<Longrightarrow> greedy_walk h' t r xs = greedy_walk h t r xs"
  by (induction xs arbitrary: r) simp_all

lemma running_total_agree:
  "\<forall>s \<in> set xs. h' s = h s \<Longrightarrow> running_total h' r xs = running_total h r xs"
  by (induction xs arbitrary: r) simp_all

lemma buildPlaylist_agree:
  assumes "\<forall>s \<in> set xs. h' s = h s"
  shows "buildPlaylist h' xs m t = buildPlaylist h xs m t"
proof -
  let ?S = "sortedSongs h xs m"
  let ?g = "greedy_walk h t 0 ?S"
  have S: "\<forall>s \<in> set ?S. h' s = h s"
    using assms by (simp add: set_sortedSongs)
  then have g: "greedy_walk h' t 0 ?S = ?g"
    by (rule greedy_walk_agree)
  have "\<forall>s \<in> set ?g. h' s = h s"
    using S set_greedy_walk [of h t 0 ?S] by auto
  then have r: "running_total h' 0 ?g = running_total h 0 ?g"
    by (rule running_total_agree)
  have "List.find (\<lambda>s. ms_val (duration_ms (h' s)) \<le> js_sub t (running_total h 0 ?g)
                        \<and> s \<notin> set ?g) ?S
      = List.find (\<lambda>s. ms_val (duration_ms (h s)) \<le> js_sub t (running_total h 0 ?g)
                        \<and> s \<notin> set ?g) ?S"
    using S by (intro find_cong) simp_all
  then show ?thesis
    unfolding buildPlaylist_loop sortedSongs_agree [OF assms]
    by (simp add: g r Let_def)
qed

text \<open>
  C9: \<open>buildPlaylist\<close> does not modify its input. After the call the input array holds
  what it held and every object is unchanged (the sort works on a new copy of the
  filtered list); every array that existed before the call is unchanged; the result is a
  new array; and the result depends on nothing but the input array and the objects that
  it refers to: in any other store that agrees on these, the call returns the same
  tracks.
\<close>

theorem buildPlaylist_store_frame:
  assumes "arrays st songs = Some xs"
    and "songs < fresh st"
    and "buildPlaylist_store songs m t st = (p, st')"
  shows "arrays st' songs = Some xs
       \<and> objects st' = objects st
       \<and> (\<forall>a < fresh st. arrays st' a = arrays st a)
       \<and> fresh st \<le> p
       \<and> arrays st' p = Some (buildPlaylist (objects st) xs m t)
       \<and> (\<forall>st2. arrays st2 songs = Some xs \<and> (\<forall>s \<in> set xs. objects st2 s = objects st s)
            \<longrightarrow> read_array (fst (buildPlaylist_store songs m t st2))
                   (snd (buildPlaylist_store songs m t st2))
                 = read_array p st')"
proof -
  note res = buildPlaylist_store_result [OF assms(1), of m t]
  have p: "p = fresh st + 2"
    and st': "st' = st\<lparr>arrays := (arrays st)
                   (fresh st \<mapsto> filteredSongs (objects st) xs m,
                    fresh st + 1 \<mapsto> sortedSongs (objects st) xs m,
                    fresh st + 2 \<mapsto> buildPlaylist (objects st) xs m t),
               fresh := fresh st + 3\<rparr>"
    using assms(3) unfolding res by auto
  have "arrays st' songs = Some xs"
    using assms(1,2) by (simp add: st')
  moreover have "objects st' = objects st"
    by (simp add: st')
  moreover have "\<forall>a < fresh st. arrays st' a = arrays st a"
    by (simp add: st')
  moreover have "fresh st \<le> p"
    by (simp add: p)
  moreover have out: "arrays st' p = Some (buildPlaylist (objects st) xs m t)"
    by (simp add: st' p)
  moreover have "read_array (fst (buildPlaylist_store songs m t st2))
                   (snd (buildPlaylist_store songs m t st2)) = read_array p st'"
    if "arrays st2 songs = Some xs" and "\<forall>s \<in> set xs. objects st2 s = objects st s" for st2
    unfolding buildPlaylist_store_result [OF that(1)]
    by (simp add: read_array_def out buildPlaylist_agree [OF that(2)])
  ultimately show ?thesis
    by blast
qed

theorem buildPlaylist_store_frame_witness:
  "arrays store_three 0 = Some [2, 0, 1] \<and> 0 < fresh store_three
   \<and> fst (buildPlaylist_store 0 Calm (ms 2280000) store_three) = 3
   \<and> arrays (snd (buildPlaylist_store 0 Calm (ms 2280000) store_three)) 0 = Some [2, 0, 1]
   \<and> objects (snd (buildPlaylist_store 0 Calm (ms 2280000) store_three)) = objects store_three
   \<and> arrays (snd (buildPlaylist_store 0 Calm (ms 2280000) store_three)) 3 = Some [0, 1]
   \<and> read_array (fst (buildPlaylist_store 0 Calm (ms 2280000) store_other))
        (snd (buildPlaylist_store 0 Calm (ms 2280000) store_other)) = [0, 1]"
proof -
  let ?r = "buildPlaylist_store 0 Calm (ms 2280000) store_three"
  have a: "arrays store_three 0 = Some [2, 0, 1]" and f: "0 < fresh store_three"
    by code_simp+
  have r: "?r = (fst ?r, snd ?r)"
    by simp
  have p: "fst ?r = 3" and out: "arrays (snd ?r) 3 = Some [0, 1]"
    and rd: "read_array (fst ?r) (snd ?r) = [0, 1]"
    by code_simp+
  have other: "arrays store_other 0 = Some [2, 0, 1]
      \<and> (\<forall>s \<in> set [2, 0, 1]. objects store_other s = objects store_three s)"
    by (simp add: store_other_def store_three_def)
  note frame = buildPlaylist_store_frame [OF a f r]
  have "arrays (snd ?r) 0 = Some [2, 0, 1]"
    using frame by blast
  moreover have "objects (snd ?r) = objects store_three"
    using frame by blast
  moreover have "read_array (fst (buildPlaylist_store 0 Calm (ms 2280000) store_other))
        (snd (buildPlaylist_store 0 Calm (ms 2280000) store_other)) = [0, 1]"
    using frame other unfolding rd by blast
  ultimately show ?thesis
    using a f p out by blast
qed

end
